theory Spec2Isabelle
  imports Complex_Main "HOL-Library.AList"
begin

section \<open>Oracle Prime: agent registry, task allocation and task lifecycle\<close>

text \<open>
  A shallow embedding of \<^verbatim>\<open>src/agents/oracle_prime.py\<close>, class \<^verbatim>\<open>OraclePrime\<close>:
  \<^verbatim>\<open>register_agent\<close>, \<^verbatim>\<open>allocate_task\<close> and \<^verbatim>\<open>update_task_status\<close>.

  \<^item> The coordinator object is a record of its four mutable members; each method takes
    the state and returns the new state with its return value.
  \<^item> Python dictionaries keep insertion order, and \<^verbatim>\<open>allocate_task\<close> iterates over the
    registry, so a dictionary is an association list with distinct keys:
    \<open>map_of\<close> reads it, \<open>AList.update\<close> writes a key (in place, or appended when new),
    \<open>AList.delete\<close> is \<^verbatim>\<open>del\<close>.
  \<^item> A subscript \<^verbatim>\<open>d[k]\<close> of a missing key raises \<^verbatim>\<open>KeyError\<close>; the state a method
    has reached when it raises is part of the result.
  \<^item> \<^verbatim>\<open>datetime.now()\<close> and \<^verbatim>\<open>uuid.uuid4()\<close> are inputs of each call (\<open>now\<close>, in
    seconds, and \<open>uuid8\<close>); the readings of the clock within one call are one value.
  \<^item> Python floats are modelled as \<open>real\<close>: arithmetic is exact, rounding is not
    modelled.
  \<^item> The knowledge graph is the constructor's default \<^verbatim>\<open>None\<close>, so the blocks guarded by
    \<^verbatim>\<open>if self.knowledge_graph\<close> do not run; logging is omitted.
\<close>

subsection \<open>Data\<close>

datatype py_error = KeyError

record performance_metrics =
  tasks_completed :: nat
  success_rate :: real
  average_response_time :: real

record agent =
  agent_type :: string
  capabilities :: "string list"
  endpoint :: "string option"
  agent_status :: string
  registration_time :: real
  last_activity :: real
  assigned_tasks :: "string list"
  performance :: performance_metrics

text \<open>A task specification is a dictionary read with \<^verbatim>\<open>.get\<close>: every key may be absent.\<close>

record task_spec =
  task_id :: "string option"
  task_type :: "string option"
  required_capabilities :: "string list option"
  priority :: "int option"
  deadline :: "string option"
  parallel_execution :: "bool option"
  parallelism :: "int option"

record allocation =
  alloc_task_id :: string
  allocation_type :: string
  allocated_agents :: "string list"
  allocation_time :: real
  expected_completion :: "real option"
  alloc_priority :: int
  alloc_status :: string

record unallocated =
  un_task_id :: string
  un_status :: string
  reason :: string
  timestamp :: real

datatype allocation_result = Unalloc unallocated | Alloc allocation

record task =
  spec :: task_spec
  allocation :: allocation
  start_time :: real
  task_status :: string
  progress :: real
  result :: "string option"
  last_updated :: "real option"
  end_time :: "real option"
  duration_seconds :: "real option"

record system_metrics =
  sys_tasks_completed :: nat
  tasks_failed :: nat
  average_completion_time :: real

type_synonym registry = "(string \<times> agent) list"

record state =
  registered_agents :: registry
  active_tasks :: "(string \<times> task) list"
  task_history :: "task list"
  metrics :: system_metrics

definition initial :: state where
  "initial = \<lparr>registered_agents = [], active_tasks = [], task_history = [],
     metrics = \<lparr>sys_tasks_completed = 0, tasks_failed = 0, average_completion_time = 0\<rparr>\<rparr>"

subsection \<open>register_agent\<close>

definition new_agent :: "string \<Rightarrow> string list \<Rightarrow> string option \<Rightarrow> real \<Rightarrow> agent" where
  "new_agent ty caps ep now =
     \<lparr>agent_type = ty, capabilities = caps, endpoint = ep, agent_status = ''active'',
      registration_time = now, last_activity = now, assigned_tasks = [],
      performance = \<lparr>tasks_completed = 0, success_rate = 1.0, average_response_time = 0\<rparr>\<rparr>"

definition register_agent ::
  "state \<Rightarrow> string \<Rightarrow> string \<Rightarrow> string list \<Rightarrow> string option \<Rightarrow> real \<Rightarrow> state \<times> bool" where
  "register_agent s agent_id ty caps ep now =
     (if agent_id \<in> fst ` set (registered_agents s) then (s, False)
      else (s\<lparr>registered_agents :=
                AList.update agent_id (new_agent ty caps ep now) (registered_agents s)\<rparr>, True))"

subsection \<open>Loops over agent identifiers\<close>

text \<open>
  Both methods contain a loop \<^verbatim>\<open>for agent_id in ids: ... self.registered_agents[agent_id] ...\<close>
  that mutates the looked-up agent in place. The loop stops at the first identifier that is
  not registered, with the agents before it already mutated.
\<close>

fun for_agents :: "(agent \<Rightarrow> agent) \<Rightarrow> string list \<Rightarrow> registry \<Rightarrow> registry \<times> py_error option" where
  "for_agents f [] reg = (reg, None)"
| "for_agents f (i # ids) reg =
     (case map_of reg i of
        None \<Rightarrow> (reg, Some KeyError)
      | Some a \<Rightarrow> for_agents f ids (AList.update i (f a) reg))"

subsection \<open>allocate_task\<close>

record scored =
  scored_id :: string
  score :: real
  load_factor :: real

definition has_all :: "string list \<Rightarrow> agent \<Rightarrow> bool" where
  "has_all required a = list_all (\<lambda>cap. cap \<in> set (capabilities a)) required"

definition eligible :: "string list \<Rightarrow> agent \<Rightarrow> bool" where
  "eligible required a = (agent_status a = ''active'' \<and> has_all required a)"

definition score_agent :: "string list \<Rightarrow> string \<Rightarrow> agent \<Rightarrow> scored" where
  "score_agent required agent_id a =
     (let load = real (length (assigned_tasks a)) / 10;
          capability_match = length (filter (\<lambda>cap. cap \<in> set (capabilities a)) required);
          capability_score =
            (if required \<noteq> [] then real capability_match / real (length required) else 1.0);
          performance_factor = success_rate (performance a);
          suitability_score =
            (capability_score * 0.5 + performance_factor * 0.3) * (1 - load * 0.8)
      in \<lparr>scored_id = agent_id, score = suitability_score, load_factor = load\<rparr>)"

fun suitable_agents :: "string list \<Rightarrow> registry \<Rightarrow> scored list" where
  "suitable_agents required [] = []"
| "suitable_agents required ((agent_id, a) # reg) =
     (if agent_status a \<noteq> ''active'' then suitable_agents required reg
      else if has_all required a
        then score_agent required agent_id a # suitable_agents required reg
        else suitable_agents required reg)"

text \<open>
  \<^verbatim>\<open>list.sort(key=..., reverse=True)\<close> is stable: elements with equal scores keep their
  order. Insertion sort on the negated score is the same permutation.
\<close>

definition sort_by_score :: "scored list \<Rightarrow> scored list" where
  "sort_by_score xs = sort_key (\<lambda>x. - score x) xs"

text \<open>The slice \<^verbatim>\<open>xs[:n]\<close>: a negative \<open>n\<close> counts from the end.\<close>

definition py_slice_to :: "int \<Rightarrow> 'a list \<Rightarrow> 'a list" where
  "py_slice_to n xs = (if n < 0 then take (nat (int (length xs) + n)) xs else take (nat n) xs)"

definition select_agents :: "task_spec \<Rightarrow> scored list \<Rightarrow> scored list \<times> string" where
  "select_agents ts sorted_agents =
     (if (case parallel_execution ts of None \<Rightarrow> False | Some b \<Rightarrow> b) \<and> length sorted_agents > 1
      then (let num_agents = min (case parallelism ts of None \<Rightarrow> 2 | Some p \<Rightarrow> p)
                                 (int (length sorted_agents))
            in (py_slice_to num_agents sorted_agents, ''parallel''))
      else ([hd sorted_agents], ''single''))"

definition assign_task :: "string \<Rightarrow> real \<Rightarrow> agent \<Rightarrow> agent" where
  "assign_task tid now a = a\<lparr>assigned_tasks := assigned_tasks a @ [tid], last_activity := now\<rparr>"

definition resolve_task_id :: "task_spec \<Rightarrow> string \<Rightarrow> string" where
  "resolve_task_id ts uuid8 = (case task_id ts of None \<Rightarrow> ''task_'' @ uuid8 | Some t \<Rightarrow> t)"

definition required_of :: "task_spec \<Rightarrow> string list" where
  "required_of ts = (case required_capabilities ts of None \<Rightarrow> [] | Some r \<Rightarrow> r)"

definition priority_of :: "task_spec \<Rightarrow> int" where
  "priority_of ts = (case priority ts of None \<Rightarrow> 5 | Some p \<Rightarrow> p)"

definition new_allocation :: "string \<Rightarrow> string \<Rightarrow> string list \<Rightarrow> int \<Rightarrow> real \<Rightarrow> allocation" where
  "new_allocation tid ty ids prio now =
     \<lparr>alloc_task_id = tid, allocation_type = ty, allocated_agents = ids, allocation_time = now,
      expected_completion = None, alloc_priority = prio, alloc_status = ''allocated''\<rparr>"

definition new_task :: "task_spec \<Rightarrow> allocation \<Rightarrow> real \<Rightarrow> task" where
  "new_task ts alloc now =
     \<lparr>spec = ts, allocation = alloc, start_time = now, task_status = ''allocated'',
      progress = 0.0, result = None, last_updated = None, end_time = None,
      duration_seconds = None\<rparr>"

definition allocate_task ::
  "state \<Rightarrow> task_spec \<Rightarrow> string \<Rightarrow> real \<Rightarrow> state \<times> (py_error + allocation_result)" where
  "allocate_task s ts uuid8 now =
     (let tid = resolve_task_id ts uuid8;
          suitable = suitable_agents (required_of ts) (registered_agents s)
      in if suitable = [] then
           (s, Inr (Unalloc \<lparr>un_task_id = tid, un_status = ''unallocated'',
                             reason = ''no_suitable_agents'', timestamp = now\<rparr>))
         else
           (let (selected, ty) = select_agents ts (sort_by_score suitable);
                alloc = new_allocation tid ty (map scored_id selected) (priority_of ts) now
            in case for_agents (assign_task tid now) (map scored_id selected) (registered_agents s) of
                 (reg, Some e) \<Rightarrow> (s\<lparr>registered_agents := reg\<rparr>, Inl e)
               | (reg, None) \<Rightarrow>
                   (s\<lparr>registered_agents := reg,
                      active_tasks := AList.update tid (new_task ts alloc now) (active_tasks s)\<rparr>,
                    Inr (Alloc alloc))))"

subsection \<open>update_task_status\<close>

definition finish_task :: "string \<Rightarrow> string \<Rightarrow> agent \<Rightarrow> agent" where
  "finish_task tid status a =
     (let tasks = (if tid \<in> set (assigned_tasks a) then remove1 tid (assigned_tasks a)
                   else assigned_tasks a);
          completed = tasks_completed (performance a) + 1;
          rate = success_rate (performance a);
          rate' = (if status = ''completed'' then (rate * real (completed - 1) + 1.0) / real completed
                   else (rate * real (completed - 1) + 0.0) / real completed)
      in a\<lparr>assigned_tasks := tasks,
           performance := (performance a)\<lparr>tasks_completed := completed, success_rate := rate'\<rparr>\<rparr>)"

definition terminal :: "string \<Rightarrow> bool" where
  "terminal status = (status = ''completed'' \<or> status = ''failed'')"

definition finish_metrics :: "string \<Rightarrow> real \<Rightarrow> system_metrics \<Rightarrow> system_metrics" where
  "finish_metrics status duration m =
     (if status = ''completed'' then
        (let completed = sys_tasks_completed m + 1;
             avg_time = average_completion_time m
         in m\<lparr>sys_tasks_completed := completed,
              average_completion_time := (avg_time * real (completed - 1) + duration) / real completed\<rparr>)
      else m\<lparr>tasks_failed := tasks_failed m + 1\<rparr>)"

definition update_task_status ::
  "state \<Rightarrow> string \<Rightarrow> string \<Rightarrow> real option \<Rightarrow> string option \<Rightarrow> real \<Rightarrow> state \<times> (py_error + bool)" where
  "update_task_status s tid status prog res now =
     (case map_of (active_tasks s) tid of
        None \<Rightarrow> (s, Inr False)
      | Some task0 \<Rightarrow>
          (let task1 = task0\<lparr>task_status := status\<rparr>;
               task2 = (case prog of None \<Rightarrow> task1 | Some p \<Rightarrow> task1\<lparr>progress := p\<rparr>);
               task3 = (case res of None \<Rightarrow> task2 | Some r \<Rightarrow> task2\<lparr>result := Some r\<rparr>);
               task4 = task3\<lparr>last_updated := Some now\<rparr>
           in if terminal status then
                (let duration = now - start_time task4;
                     task5 = task4\<lparr>end_time := Some now, duration_seconds := Some duration\<rparr>
                 in case for_agents (finish_task tid status)
                           (allocated_agents (allocation task5)) (registered_agents s) of
                      (reg, Some e) \<Rightarrow>
                        (s\<lparr>registered_agents := reg,
                           active_tasks := AList.update tid task5 (active_tasks s)\<rparr>, Inl e)
                    | (reg, None) \<Rightarrow>
                        (s\<lparr>registered_agents := reg,
                           task_history := task_history s @ [task5],
                           active_tasks := AList.delete tid (active_tasks s),
                           metrics := finish_metrics status duration (metrics s)\<rparr>, Inr True))
              else (s\<lparr>active_tasks := AList.update tid task4 (active_tasks s)\<rparr>, Inr True)))"

subsection \<open>Sequences of calls\<close>

text \<open>
  A caller's call, with the clock reading (and the generated identifier) it meets. A call
  that raises leaves the coordinator in the state it had reached.
\<close>

datatype op =
    Register string string "string list" "string option" real
  | Allocate task_spec string real
  | Update string string "real option" "string option" real

fun step :: "state \<Rightarrow> op \<Rightarrow> state" where
  "step s (Register i ty caps ep now) = fst (register_agent s i ty caps ep now)"
| "step s (Allocate ts uuid8 now) = fst (allocate_task s ts uuid8 now)"
| "step s (Update tid status prog res now) = fst (update_task_status s tid status prog res now)"

fun run :: "state \<Rightarrow> op list \<Rightarrow> state" where
  "run s [] = s"
| "run s (c # cs) = run (step s c) cs"

text \<open>
  The identifiers of the active tasks are the keys of \<^verbatim>\<open>active_tasks\<close>. An archived record
  has no \<^verbatim>\<open>task_id\<close> key of its own; its identifier is the one in its allocation record.
\<close>

definition active_ids :: "state \<Rightarrow> string list" where
  "active_ids s = map fst (active_tasks s)"

definition archived_id :: "task \<Rightarrow> string" where
  "archived_id t = alloc_task_id (allocation t)"

definition history_ids :: "state \<Rightarrow> string list" where
  "history_ids s = map archived_id (task_history s)"

text \<open>
  A sequence of calls is guarded by a condition on task identifiers when every
  \<^verbatim>\<open>allocate_task\<close> call in it meets the condition in the state it is made in.
\<close>

fun guarded :: "(state \<Rightarrow> string \<Rightarrow> bool) \<Rightarrow> state \<Rightarrow> op list \<Rightarrow> bool" where
  "guarded ok s [] = True"
| "guarded ok s (Allocate ts uuid8 now # cs) =
     (ok s (resolve_task_id ts uuid8) \<and> guarded ok (step s (Allocate ts uuid8 now)) cs)"
| "guarded ok s (c # cs) = guarded ok (step s c) cs"

definition inactive :: "state \<Rightarrow> string \<Rightarrow> bool" where
  "inactive s tid = (tid \<notin> set (active_ids s))"

definition unarchived :: "state \<Rightarrow> string \<Rightarrow> bool" where
  "unarchived s tid = (tid \<notin> set (history_ids s))"

definition archive_consistent :: "state \<Rightarrow> bool" where
  "archive_consistent s =
     (set (active_ids s) \<inter> set (history_ids s) = {} \<and> distinct (history_ids s))"

text \<open>What a call does to the assignments, as an observer of the calls sees it.\<close>

datatype event = Allocated string "string list" | Finished string | Silent

fun event_of :: "state \<Rightarrow> op \<Rightarrow> event" where
  "event_of s (Register i ty caps ep now) = Silent"
| "event_of s (Allocate ts uuid8 now) =
     (case snd (allocate_task s ts uuid8 now) of
        Inr (Alloc al) \<Rightarrow> Allocated (alloc_task_id al) (allocated_agents al)
      | _ \<Rightarrow> Silent)"
| "event_of s (Update tid status prog res now) =
     (if terminal status \<and> snd (update_task_status s tid status prog res now) = Inr True
      then Finished tid else Silent)"

fun events :: "state \<Rightarrow> op list \<Rightarrow> event list" where
  "events s [] = []"
| "events s (c # cs) = event_of s c # events (step s c) cs"

text \<open>The allocations that selected an agent, and those of them whose task has since
  reached a terminal status.\<close>

fun allocations_to :: "string \<Rightarrow> event list \<Rightarrow> nat" where
  "allocations_to i [] = 0"
| "allocations_to i (Allocated tid ids # es) =
     (if i \<in> set ids then 1 else 0) + allocations_to i es"
| "allocations_to i (e # es) = allocations_to i es"

fun finished_of :: "string \<Rightarrow> event list \<Rightarrow> nat" where
  "finished_of i [] = 0"
| "finished_of i (Allocated tid ids # es) =
     (if i \<in> set ids \<and> Finished tid \<in> set es then 1 else 0) + finished_of i es"
| "finished_of i (e # es) = finished_of i es"

definition assigned_to :: "state \<Rightarrow> string \<Rightarrow> string list" where
  "assigned_to s i = (case map_of (registered_agents s) i of None \<Rightarrow> [] | Some a \<Rightarrow> assigned_tasks a)"

text \<open>
  The states the coordinator can reach keep the registry's keys distinct, and every active
  task carries its own identifier and the status \<^verbatim>\<open>allocated\<close> in its allocation record
  and is allocated to registered agents, each listed once.
\<close>

definition task_ok :: "registry \<Rightarrow> string \<times> task \<Rightarrow> bool" where
  "task_ok reg kt =
     (alloc_task_id (allocation (snd kt)) = fst kt \<and>
      alloc_status (allocation (snd kt)) = ''allocated'' \<and>
      distinct (allocated_agents (allocation (snd kt))) \<and>
      list_all (\<lambda>i. i \<in> fst ` set reg) (allocated_agents (allocation (snd kt))))"

definition wf_state :: "state \<Rightarrow> bool" where
  "wf_state s =
     (distinct (map fst (registered_agents s)) \<and>
      list_all (task_ok (registered_agents s)) (active_tasks s))"


subsection \<open>The selection of a call\<close>

text \<open>The agents \<^verbatim>\<open>allocate_task\<close> selects in a state, with the allocation type.\<close>

definition chosen :: "state \<Rightarrow> task_spec \<Rightarrow> scored list \<times> string" where
  "chosen s ts = select_agents ts (sort_by_score (suitable_agents (required_of ts) (registered_agents s)))"

text \<open>
  The specification's words for the selection: the eligible agents are the active agents
  whose capability set includes the required capabilities; an agent's score is the one
  computed from its registry record; the allocation is parallel when the task asks for it and
  more than one agent is eligible, and then \<open>min (parallelism, eligible count)\<close> agents are
  selected (parallelism 2 when the key is absent), otherwise one.
\<close>

definition eligible_ids :: "state \<Rightarrow> task_spec \<Rightarrow> string list" where
  "eligible_ids s ts =
     map fst (filter (\<lambda>(i, a). agent_status a = ''active'' \<and>
                               set (required_of ts) \<subseteq> set (capabilities a)) (registered_agents s))"

definition score_of :: "state \<Rightarrow> task_spec \<Rightarrow> string \<Rightarrow> real" where
  "score_of s ts i =
     (case map_of (registered_agents s) i of
        None \<Rightarrow> 0
      | Some a \<Rightarrow> score (score_agent (required_of ts) i a))"

definition wants_parallel :: "state \<Rightarrow> task_spec \<Rightarrow> bool" where
  "wants_parallel s ts = (parallel_execution ts = Some True \<and> 1 < length (eligible_ids s ts))"

definition spec_count :: "state \<Rightarrow> task_spec \<Rightarrow> int" where
  "spec_count s ts =
     (if wants_parallel s ts
      then min (case parallelism ts of None \<Rightarrow> 2 | Some p \<Rightarrow> p) (int (length (eligible_ids s ts)))
      else 1)"

text \<open>
  The specification's scoring function: the load factor is capped at 1.0, the capability
  score is the share of the required capabilities the agent has.
\<close>

definition spec_load_factor :: "agent \<Rightarrow> real" where
  "spec_load_factor a = min 1.0 (real (length (assigned_tasks a)) / 10)"

definition spec_capability_score :: "string list \<Rightarrow> agent \<Rightarrow> real" where
  "spec_capability_score required a =
     (if set required = {} then 1.0
      else real (card (set required \<inter> set (capabilities a))) / real (card (set required)))"

definition spec_suitability :: "string list \<Rightarrow> agent \<Rightarrow> real" where
  "spec_suitability required a =
     (spec_capability_score required a * 0.5 + success_rate (performance a) * 0.3)
       * (1 - spec_load_factor a * 0.8)"

subsection \<open>The record an update leaves\<close>

text \<open>The fields \<^verbatim>\<open>update_task_status\<close> writes into the task record, in its order.\<close>

definition updated_task :: "task \<Rightarrow> string \<Rightarrow> real option \<Rightarrow> string option \<Rightarrow> real \<Rightarrow> task" where
  "updated_task t status prog res now =
     (let task1 = t\<lparr>task_status := status\<rparr>;
          task2 = (case prog of None \<Rightarrow> task1 | Some p \<Rightarrow> task1\<lparr>progress := p\<rparr>);
          task3 = (case res of None \<Rightarrow> task2 | Some r \<Rightarrow> task2\<lparr>result := Some r\<rparr>);
          task4 = task3\<lparr>last_updated := Some now\<rparr>
      in if terminal status
         then task4\<lparr>end_time := Some now, duration_seconds := Some (now - start_time task4)\<rparr>
         else task4)"

subsection \<open>Assignments along a sequence of calls\<close>

text \<open>
  Every task in an agent's list is active and allocated to that agent, and is listed once.
\<close>

definition holds_only_active :: "state \<Rightarrow> bool" where
  "holds_only_active s =
     (\<forall>i. distinct (assigned_to s i) \<and>
          (\<forall>tid \<in> set (assigned_to s i).
             \<exists>t. map_of (active_tasks s) tid = Some t \<and> i \<in> set (allocated_agents (allocation t))))"

text \<open>The allocations that selected agent \<open>i\<close> and whose task has not finished since.\<close>

fun pending :: "string \<Rightarrow> event list \<Rightarrow> string list" where
  "pending i [] = []"
| "pending i (Allocated tid ids # es) =
     (if i \<in> set ids \<and> Finished tid \<notin> set es then [tid] else []) @ pending i es"
| "pending i (e # es) = pending i es"

fun apply_event :: "string \<Rightarrow> event \<Rightarrow> string list \<Rightarrow> string list" where
  "apply_event i (Allocated tid ids) xs = (if i \<in> set ids then xs @ [tid] else xs)"
| "apply_event i (Finished tid) xs = filter (\<lambda>t. t \<noteq> tid) xs"
| "apply_event i Silent xs = xs"

subsection \<open>Example calls\<close>

definition task_for :: "string \<Rightarrow> string list \<Rightarrow> task_spec" where
  "task_for tid required =
     \<lparr>task_id = Some tid, task_type = None, required_capabilities = Some required,
      priority = None, deadline = None, parallel_execution = None, parallelism = None\<rparr>"

definition in_parallel :: "int option \<Rightarrow> task_spec" where
  "in_parallel k = (task_for ''t'' [''nlp''])\<lparr>parallel_execution := Some True, parallelism := k\<rparr>"

definition three_agents :: "op list" where
  "three_agents =
     [Register ''a1'' ''worker'' [''nlp''] None 0,
      Register ''a2'' ''worker'' [''nlp'', ''vision''] None 0,
      Register ''a3'' ''worker'' [''nlp''] None 0]"

definition one_busy :: "op list" where
  "one_busy = three_agents @ [Allocate (task_for ''t0'' [''nlp'']) [] 1]"

definition one_done :: "op list" where
  "one_done = three_agents @
     [Allocate (task_for ''t'' [''nlp'']) [] 1, Update ''t'' ''completed'' (Some 100) None 2]"

definition two_rounds :: "op list" where
  "two_rounds = three_agents @
     [Allocate (task_for ''t1'' [''nlp'']) [] 1,
      Update ''t1'' ''in_progress'' (Some 50) None 2,
      Update ''t1'' ''completed'' (Some 100) None 3,
      Allocate (task_for ''t2'' [''nlp'']) [] 4]"

definition resubmitted :: "op list" where
  "resubmitted = three_agents @
     [Allocate (task_for ''t'' [''nlp'']) [] 1,
      Update ''t'' ''completed'' (Some 100) None 2,
      Allocate (task_for ''t'' [''nlp'']) [] 3]"

definition reallocated :: "op list" where
  "reallocated = three_agents @
     [Allocate (task_for ''t'' [''nlp'']) [] 1,
      Allocate (task_for ''t'' [''vision'']) [] 2,
      Update ''t'' ''completed'' (Some 100) None 3]"

definition eleven_tasks :: "op list" where
  "eleven_tasks =
     [Register ''a1'' ''worker'' [] None 0,
      Allocate (task_for ''t01'' []) [] 1, Allocate (task_for ''t02'' []) [] 1,
      Allocate (task_for ''t03'' []) [] 1, Allocate (task_for ''t04'' []) [] 1,
      Allocate (task_for ''t05'' []) [] 1, Allocate (task_for ''t06'' []) [] 1,
      Allocate (task_for ''t07'' []) [] 1, Allocate (task_for ''t08'' []) [] 1,
      Allocate (task_for ''t09'' []) [] 1, Allocate (task_for ''t10'' []) [] 1,
      Allocate (task_for ''t11'' []) [] 1]"

section \<open>Dictionaries and the loops over them\<close>

lemma update_fresh: "k \<notin> fst ` set xs \<Longrightarrow> AList.update k v xs = xs @ [(k, v)]"
  by (induction xs) auto

lemma keys_update_present: "k \<in> fst ` set xs \<Longrightarrow> map fst (AList.update k v xs) = map fst xs"
  by (simp add: update_keys)

lemma map_of_Some_key: "map_of xs k = Some v \<Longrightarrow> k \<in> fst ` set xs"
  by (metis domI dom_map_of_conv_image_fst)

lemma for_agents_keys: "map fst (fst (for_agents f ids reg)) = map fst reg"
proof (induction ids arbitrary: reg)
  case Nil
  then show ?case by simp
next
  case (Cons i ids)
  show ?case
  proof (cases "map_of reg i")
    case None
    then show ?thesis by simp
  next
    case (Some a)
    then have "i \<in> fst ` set reg" by (rule map_of_Some_key)
    then show ?thesis using Some Cons.IH [of "AList.update i (f a) reg"]
      by (simp add: keys_update_present)
  qed
qed

text \<open>A loop over registered identifiers does not raise.\<close>

lemma for_agents_ok: "set ids \<subseteq> fst ` set reg \<Longrightarrow> snd (for_agents f ids reg) = None"
proof (induction ids arbitrary: reg)
  case Nil
  then show ?case by simp
next
  case (Cons i ids)
  then obtain a where a: "map_of reg i = Some a"
    by (metis domD dom_map_of_conv_image_fst list.set_intros(1) subsetD)
  have "fst ` set (AList.update i (f a) reg) = fst ` set reg"
    using a keys_update_present [of i reg "f a"] map_of_Some_key [OF a]
    by (metis list.set_map)
  then show ?case using Cons a by simp
qed

section \<open>Scoring and selection\<close>

lemma has_all_subset: "has_all required a \<longleftrightarrow> set required \<subseteq> set (capabilities a)"
  by (auto simp: has_all_def list_all_iff)

lemma suitable_agents_filter:
  "suitable_agents required reg =
     map (\<lambda>(i, a). score_agent required i a) (filter (\<lambda>(i, a). eligible required a) reg)"
  by (induction required reg rule: suitable_agents.induct) (auto simp: eligible_def)

lemma scored_id_score_agent [simp]: "scored_id (score_agent required i a) = i"
  by (simp add: score_agent_def Let_def)

lemma suitable_ids:
  "map scored_id (suitable_agents required reg) = map fst (filter (\<lambda>(i, a). eligible required a) reg)"
  by (induction required reg rule: suitable_agents.induct) (auto simp: eligible_def)

lemma suitable_ids_registered:
  "set (map scored_id (suitable_agents required reg)) \<subseteq> fst ` set reg"
  unfolding suitable_ids by auto

lemma suitable_ids_distinct:
  "distinct (map fst reg) \<Longrightarrow> distinct (map scored_id (suitable_agents required reg))"
  unfolding suitable_ids by (rule distinct_map_filter)

lemma set_sort_by_score [simp]: "set (sort_by_score xs) = set xs"
  by (simp add: sort_by_score_def)

lemma length_sort_by_score [simp]: "length (sort_by_score xs) = length xs"
  by (simp add: sort_by_score_def)

lemma sort_by_score_Nil [simp]: "sort_by_score xs = [] \<longleftrightarrow> xs = []"
  by (metis length_0_conv length_sort_by_score)

lemma distinct_map_insort_key:
  "distinct (map g (insort_key f x xs)) \<longleftrightarrow> g x \<notin> g ` set xs \<and> distinct (map g xs)"
  by (induction xs) (auto simp: set_insort_key)

lemma distinct_map_sort_key: "distinct (map g (sort_key f xs)) = distinct (map g xs)"
  by (induction xs) (auto simp: distinct_map_insort_key)

lemma distinct_ids_sort_by_score:
  "distinct (map scored_id (sort_by_score xs)) = distinct (map scored_id xs)"
  by (simp add: sort_by_score_def distinct_map_sort_key)

lemma py_slice_to_subset: "set (py_slice_to n xs) \<subseteq> set xs"
  by (auto simp: py_slice_to_def dest: in_set_takeD)

lemma select_agents_subset:
  "xs \<noteq> [] \<Longrightarrow> set (fst (select_agents ts xs)) \<subseteq> set xs"
  using py_slice_to_subset [of _ xs]
  by (auto simp: select_agents_def Let_def)

lemma select_agents_distinct:
  "xs \<noteq> [] \<Longrightarrow> distinct (map scored_id xs) \<Longrightarrow> distinct (map scored_id (fst (select_agents ts xs)))"
  by (auto simp: select_agents_def Let_def py_slice_to_def take_map [symmetric] simp del: take_map)

lemma selected_registered:
  assumes "suitable_agents (required_of ts) (registered_agents s) \<noteq> []"
  shows "set (map scored_id (fst (select_agents ts
            (sort_by_score (suitable_agents (required_of ts) (registered_agents s))))))
         \<subseteq> fst ` set (registered_agents s)"
proof -
  let ?c = "suitable_agents (required_of ts) (registered_agents s)"
  have "set (fst (select_agents ts (sort_by_score ?c))) \<subseteq> set ?c"
    using select_agents_subset [of "sort_by_score ?c" ts] assms by simp
  then have "set (map scored_id (fst (select_agents ts (sort_by_score ?c)))) \<subseteq> set (map scored_id ?c)"
    by auto
  then show ?thesis using suitable_ids_registered [of "required_of ts" "registered_agents s"] by blast
qed

lemma allocate_task_unallocated:
  assumes "suitable_agents (required_of ts) (registered_agents s) = []"
  shows "allocate_task s ts uuid8 now =
     (s, Inr (Unalloc \<lparr>un_task_id = resolve_task_id ts uuid8, un_status = ''unallocated'',
                      reason = ''no_suitable_agents'', timestamp = now\<rparr>))"
  using assms by (simp add: allocate_task_def Let_def)

text \<open>\<^verbatim>\<open>allocate_task\<close> never raises: the agents it selects come from the registry it iterates.\<close>

lemma allocate_task_allocated:
  assumes "suitable_agents (required_of ts) (registered_agents s) \<noteq> []"
  shows "allocate_task s ts uuid8 now =
     (s\<lparr>registered_agents :=
          fst (for_agents (assign_task (resolve_task_id ts uuid8) now)
                 (map scored_id (fst (chosen s ts))) (registered_agents s)),
        active_tasks := AList.update (resolve_task_id ts uuid8)
          (new_task ts (new_allocation (resolve_task_id ts uuid8) (snd (chosen s ts))
              (map scored_id (fst (chosen s ts))) (priority_of ts) now) now) (active_tasks s)\<rparr>,
      Inr (Alloc (new_allocation (resolve_task_id ts uuid8) (snd (chosen s ts))
              (map scored_id (fst (chosen s ts))) (priority_of ts) now)))"
proof -
  have "snd (for_agents (assign_task (resolve_task_id ts uuid8) now)
               (map scored_id (fst (chosen s ts))) (registered_agents s)) = None"
    unfolding chosen_def by (rule for_agents_ok [OF selected_registered [OF assms(1)]])
  moreover obtain sel ty where c: "chosen s ts = (sel, ty)"
    by (cases "chosen s ts")
  ultimately obtain reg where
    "for_agents (assign_task (resolve_task_id ts uuid8) now) (map scored_id sel) (registered_agents s)
       = (reg, None)"
    by (cases "for_agents (assign_task (resolve_task_id ts uuid8) now) (map scored_id sel)
                 (registered_agents s)") auto
  then show ?thesis
    using assms(1) c
    by (simp add: allocate_task_def Let_def chosen_def [symmetric])
qed

lemma eligible_ids_suitable:
  "eligible_ids s ts = map scored_id (suitable_agents (required_of ts) (registered_agents s))"
  by (simp add: eligible_ids_def suitable_ids eligible_def has_all_subset)

lemma suitable_Nil_iff:
  "suitable_agents (required_of ts) (registered_agents s) = [] \<longleftrightarrow> eligible_ids s ts = []"
  by (simp add: eligible_ids_suitable)

lemma score_of_suitable:
  assumes "distinct (map fst (registered_agents s))"
      and "c \<in> set (suitable_agents (required_of ts) (registered_agents s))"
  shows "score_of s ts (scored_id c) = score c"
proof -
  from assms(2) obtain i a where ia: "(i, a) \<in> set (registered_agents s)"
      and c: "c = score_agent (required_of ts) i a"
    by (auto simp: suitable_agents_filter)
  from assms(1) ia have "map_of (registered_agents s) i = Some a" by simp
  then show ?thesis using c by (simp add: score_of_def)
qed

lemma sorted_desc_sort_by_score:
  "sorted_wrt (\<lambda>x y. score y \<le> score x) (sort_by_score xs)"
proof -
  have "sorted (map (\<lambda>x. - score x) (sort_by_score xs))"
    by (simp add: sort_by_score_def)
  then show ?thesis by (simp add: sorted_map sorted_wrt_iff_nth_less)
qed

lemma take_top:
  assumes "sorted_wrt (\<lambda>x y. score y \<le> score x) xs"
      and "x \<in> set (take k xs)" and "y \<in> set (drop k xs)"
  shows "score y \<le> score x"
proof -
  have "sorted_wrt (\<lambda>x y. score y \<le> score x) (take k xs @ drop k xs)"
    using assms(1) by simp
  then show ?thesis using assms(2,3) unfolding sorted_wrt_append by blast
qed

lemma chosen_take:
  assumes "eligible_ids s ts \<noteq> []"
      and "case parallelism ts of None \<Rightarrow> True | Some p \<Rightarrow> 0 \<le> p"
  shows "fst (chosen s ts) =
           take (nat (spec_count s ts))
             (sort_by_score (suitable_agents (required_of ts) (registered_agents s)))"
    and "snd (chosen s ts) = (if wants_parallel s ts then ''parallel'' else ''single'')"
proof -
  let ?srt = "sort_by_score (suitable_agents (required_of ts) (registered_agents s))"
  have len: "length (suitable_agents (required_of ts) (registered_agents s)) = length (eligible_ids s ts)"
    by (simp add: eligible_ids_suitable)
  have ne: "?srt \<noteq> []" using assms(1) by (simp add: suitable_Nil_iff)
  have par: "(case parallel_execution ts of None \<Rightarrow> False | Some b \<Rightarrow> b) \<longleftrightarrow>
             parallel_execution ts = Some True"
    by (cases "parallel_execution ts") auto
  have hd: "[hd ?srt] = take 1 ?srt" using ne by (cases ?srt) auto
  show "fst (chosen s ts) = take (nat (spec_count s ts)) ?srt"
    using assms(2) hd
    by (auto simp: chosen_def select_agents_def Let_def spec_count_def wants_parallel_def par len
          py_slice_to_def min_def split: option.splits)
  show "snd (chosen s ts) = (if wants_parallel s ts then ''parallel'' else ''single'')"
    by (auto simp: chosen_def select_agents_def Let_def wants_parallel_def par len)
qed

section \<open>Reachable states\<close>

lemma list_all_update:
  "P (k, v) \<Longrightarrow> list_all P xs \<Longrightarrow> list_all P (AList.update k v xs)"
  by (induction xs) auto

lemma list_all_delete: "list_all P xs \<Longrightarrow> list_all P (AList.delete k xs)"
  by (induction xs) auto

lemma task_ok_keys:
  "fst ` set reg' = fst ` set reg \<Longrightarrow> task_ok reg' kt = task_ok reg kt"
  by (simp add: task_ok_def)

lemma task_ok_more_keys:
  "fst ` set reg \<subseteq> fst ` set reg' \<Longrightarrow> task_ok reg kt \<Longrightarrow> task_ok reg' kt"
  by (auto simp: task_ok_def list_all_iff)

lemma for_agents_key_set: "fst ` set (fst (for_agents f ids reg)) = fst ` set reg"
  using for_agents_keys [of f ids reg] by (metis list.set_map)

lemma wf_register:
  assumes "wf_state s"
  shows "wf_state (fst (register_agent s i ty caps ep now))"
proof (cases "i \<in> fst ` set (registered_agents s)")
  case True
  then show ?thesis using assms by (simp add: register_agent_def)
next
  case False
  let ?reg = "registered_agents s @ [(i, new_agent ty caps ep now)]"
  have sub: "fst ` set (registered_agents s) \<subseteq> fst ` set ?reg" by auto
  have "list_all (task_ok ?reg) (active_tasks s)"
    using assms task_ok_more_keys [OF sub] unfolding wf_state_def list_all_iff by blast
  then show ?thesis
    using False assms by (auto simp: register_agent_def update_fresh wf_state_def)
qed

lemma chosen_ids:
  assumes "distinct (map fst (registered_agents s))"
      and "suitable_agents (required_of ts) (registered_agents s) \<noteq> []"
  shows "distinct (map scored_id (fst (chosen s ts)))"
    and "set (map scored_id (fst (chosen s ts))) \<subseteq> fst ` set (registered_agents s)"
proof -
  show "distinct (map scored_id (fst (chosen s ts)))"
    unfolding chosen_def
    using assms
    by (intro select_agents_distinct) (simp_all add: distinct_ids_sort_by_score suitable_ids_distinct)
  show "set (map scored_id (fst (chosen s ts))) \<subseteq> fst ` set (registered_agents s)"
    unfolding chosen_def by (rule selected_registered [OF assms(2)])
qed

lemma wf_allocate:
  assumes "wf_state s"
  shows "wf_state (fst (allocate_task s ts uuid8 now))"
proof (cases "suitable_agents (required_of ts) (registered_agents s) = []")
  case True
  then show ?thesis using assms by (simp add: allocate_task_unallocated)
next
  case False
  let ?tid = "resolve_task_id ts uuid8"
  let ?ids = "map scored_id (fst (chosen s ts))"
  let ?reg = "fst (for_agents (assign_task ?tid now) ?ids (registered_agents s))"
  let ?t = "new_task ts (new_allocation ?tid (snd (chosen s ts)) ?ids (priority_of ts) now) now"
  have d: "distinct (map fst (registered_agents s))" using assms by (simp add: wf_state_def)
  have keys: "fst ` set ?reg = fst ` set (registered_agents s)" by (rule for_agents_key_set)
  have new: "task_ok ?reg (?tid, ?t)"
    using chosen_ids [OF d False] keys
    by (auto simp: task_ok_def new_task_def new_allocation_def list_all_iff)
  have old: "list_all (task_ok ?reg) (active_tasks s)"
    using assms task_ok_keys [OF keys] by (simp add: wf_state_def list_all_iff)
  show ?thesis
    using d new old
    by (simp add: allocate_task_allocated [OF False] wf_state_def for_agents_keys list_all_update)
qed

lemma active_task_ok:
  assumes "wf_state s" and "map_of (active_tasks s) tid = Some t"
  shows "task_ok (registered_agents s) (tid, t)"
  using assms map_of_SomeD [OF assms(2)] by (auto simp: wf_state_def list_all_iff)

subsection \<open>What an update does\<close>

lemma updated_task_allocation [simp]:
  "allocation (updated_task t status prog res now) = allocation t"
  by (simp add: updated_task_def Let_def split: option.splits)

lemma updated_task_status [simp]:
  "task_status (updated_task t status prog res now) = status"
  by (simp add: updated_task_def Let_def split: option.splits)

lemma updated_task_start [simp]:
  "start_time (updated_task t status prog res now) = start_time t"
  by (simp add: updated_task_def Let_def split: option.splits)

lemma update_unknown:
  "map_of (active_tasks s) tid = None \<Longrightarrow>
   update_task_status s tid status prog res now = (s, Inr False)"
  by (simp add: update_task_status_def)

lemma update_progress:
  assumes "map_of (active_tasks s) tid = Some t" and "\<not> terminal status"
  shows "update_task_status s tid status prog res now =
     (s\<lparr>active_tasks := AList.update tid (updated_task t status prog res now) (active_tasks s)\<rparr>,
      Inr True)"
  using assms by (simp add: update_task_status_def updated_task_def Let_def)

text \<open>A terminal update of a task whose agents are all registered archives the task.\<close>

lemma update_terminal:
  assumes "map_of (active_tasks s) tid = Some t" and "terminal status"
      and "set (allocated_agents (allocation t)) \<subseteq> fst ` set (registered_agents s)"
  shows "update_task_status s tid status prog res now =
     (s\<lparr>registered_agents :=
          fst (for_agents (finish_task tid status) (allocated_agents (allocation t))
                 (registered_agents s)),
        task_history := task_history s @ [updated_task t status prog res now],
        active_tasks := AList.delete tid (active_tasks s),
        metrics := finish_metrics status (now - start_time t) (metrics s)\<rparr>,
      Inr True)"
proof -
  have "snd (for_agents (finish_task tid status) (allocated_agents (allocation t))
               (registered_agents s)) = None"
    by (rule for_agents_ok [OF assms(3)])
  then obtain reg where r: "for_agents (finish_task tid status) (allocated_agents (allocation t))
               (registered_agents s) = (reg, None)"
    by (cases "for_agents (finish_task tid status) (allocated_agents (allocation t))
               (registered_agents s)") auto
  have a: "allocation (case res of None \<Rightarrow> (case prog of None \<Rightarrow> t\<lparr>task_status := status\<rparr>
                | Some p \<Rightarrow> t\<lparr>task_status := status, progress := p\<rparr>)
             | Some r \<Rightarrow> (case prog of None \<Rightarrow> t\<lparr>task_status := status\<rparr>
                | Some p \<Rightarrow> t\<lparr>task_status := status, progress := p\<rparr>)\<lparr>result := Some r\<rparr>) = allocation t"
    by (simp split: option.splits)
  show ?thesis
    using assms(1,2) r
    by (simp add: update_task_status_def updated_task_def Let_def split: option.splits)
qed

subsection \<open>The invariant holds in every reachable state\<close>

lemma wf_update:
  assumes "wf_state s"
  shows "wf_state (fst (update_task_status s tid status prog res now))"
proof (cases "map_of (active_tasks s) tid")
  case None
  then show ?thesis using assms by (simp add: update_unknown)
next
  case (Some t)
  have ok: "task_ok (registered_agents s) (tid, t)" by (rule active_task_ok [OF assms Some])
  show ?thesis
  proof (cases "terminal status")
    case False
    have "task_ok (registered_agents s) (tid, updated_task t status prog res now)"
      using ok by (simp add: task_ok_def)
    then show ?thesis
      using assms by (simp add: update_progress [OF Some False] wf_state_def list_all_update)
  next
    case True
    have sub: "set (allocated_agents (allocation t)) \<subseteq> fst ` set (registered_agents s)"
      using ok by (auto simp: task_ok_def list_all_iff)
    let ?reg = "fst (for_agents (finish_task tid status) (allocated_agents (allocation t))
                 (registered_agents s))"
    have keys: "fst ` set ?reg = fst ` set (registered_agents s)" by (rule for_agents_key_set)
    have "list_all (task_ok ?reg) (active_tasks s)"
      using assms task_ok_keys [OF keys] by (simp add: wf_state_def list_all_iff)
    then show ?thesis
      using assms
      by (simp add: update_terminal [OF Some True sub] wf_state_def for_agents_keys list_all_delete)
  qed
qed

lemma wf_step: "wf_state s \<Longrightarrow> wf_state (step s c)"
  by (cases c) (simp_all add: wf_register wf_allocate wf_update)

lemma wf_run: "wf_state s \<Longrightarrow> wf_state (run s cs)"
  by (induction cs arbitrary: s) (simp_all add: wf_step)

lemma wf_initial: "wf_state initial"
  by (simp add: wf_state_def initial_def)

lemma wf_reachable: "wf_state (run initial cs)"
  by (rule wf_run [OF wf_initial])

lemma active_ids_dom: "tid \<in> set (active_ids s) \<longleftrightarrow> map_of (active_tasks s) tid \<noteq> None"
  by (simp add: active_ids_def map_of_eq_None_iff)

section \<open>Active tasks and the archive\<close>

lemma active_ids_update:
  "set (map fst (AList.update k v xs)) = insert k (set (map fst xs))"
  by (auto simp: update_keys)

lemma active_ids_delete:
  "set (map fst (AList.delete k xs)) = set (map fst xs) - {k}"
  by (simp add: delete_keys)

lemma archive_register:
  "archive_consistent (fst (register_agent s i ty caps ep now)) = archive_consistent s"
  by (simp add: register_agent_def archive_consistent_def active_ids_def history_ids_def)

lemma archive_allocate:
  assumes "archive_consistent s" and "unarchived s (resolve_task_id ts uuid8)"
  shows "archive_consistent (fst (allocate_task s ts uuid8 now))"
proof (cases "suitable_agents (required_of ts) (registered_agents s) = []")
  case True
  then show ?thesis using assms by (simp add: allocate_task_unallocated)
next
  case False
  show ?thesis
    using assms
    by (auto simp: allocate_task_allocated [OF False] archive_consistent_def unarchived_def
          active_ids_def history_ids_def update_keys)
qed

lemma archive_update:
  assumes "wf_state s" and "archive_consistent s"
  shows "archive_consistent (fst (update_task_status s tid status prog res now))"
proof (cases "map_of (active_tasks s) tid")
  case None
  then show ?thesis using assms by (simp add: update_unknown)
next
  case (Some t)
  have ok: "task_ok (registered_agents s) (tid, t)" by (rule active_task_ok [OF assms(1) Some])
  have mem: "tid \<in> set (active_ids s)" using Some by (simp add: active_ids_dom)
  show ?thesis
  proof (cases "terminal status")
    case False
    have "set (map fst (AList.update tid (updated_task t status prog res now) (active_tasks s)))
            = set (active_ids s)"
      using mem unfolding active_ids_update by (auto simp: active_ids_def)
    then show ?thesis
      using assms(2)
      by (simp add: update_progress [OF Some False] archive_consistent_def active_ids_def
            history_ids_def)
  next
    case True
    have sub: "set (allocated_agents (allocation t)) \<subseteq> fst ` set (registered_agents s)"
      using ok by (auto simp: task_ok_def list_all_iff)
    have id: "archived_id (updated_task t status prog res now) = tid"
      using ok by (simp add: archived_id_def task_ok_def)
    have "tid \<notin> set (history_ids s)" using mem assms(2) by (auto simp: archive_consistent_def)
    then show ?thesis
      using assms(2) id
      by (auto simp: update_terminal [OF Some True sub] archive_consistent_def active_ids_def
            history_ids_def delete_keys)
  qed
qed

lemma archive_run:
  "wf_state s \<Longrightarrow> archive_consistent s \<Longrightarrow> guarded unarchived s cs \<Longrightarrow> archive_consistent (run s cs)"
proof (induction cs arbitrary: s)
  case Nil
  then show ?case by simp
next
  case (Cons c cs)
  have wf: "wf_state (step s c)" by (rule wf_step [OF Cons.prems(1)])
  have "archive_consistent (step s c) \<and> guarded unarchived (step s c) cs"
    using Cons.prems
    by (cases c) (auto simp: archive_register archive_allocate archive_update)
  then show ?case using Cons.IH [OF wf] by simp
qed

section \<open>The assigned-task lists\<close>

lemma for_agents_map_of:
  "distinct ids \<Longrightarrow> set ids \<subseteq> fst ` set reg \<Longrightarrow>
   map_of (fst (for_agents f ids reg)) i =
     (if i \<in> set ids then map_option f (map_of reg i) else map_of reg i)"
proof (induction ids arbitrary: reg)
  case Nil
  then show ?case by simp
next
  case (Cons j ids)
  then obtain a where a: "map_of reg j = Some a"
    by (metis domD dom_map_of_conv_image_fst list.set_intros(1) subsetD)
  let ?reg = "AList.update j (f a) reg"
  have keys: "fst ` set ?reg = fst ` set reg"
    using keys_update_present [of j reg "f a"] map_of_Some_key [OF a] by (metis list.set_map)
  have IH: "map_of (fst (for_agents f ids ?reg)) i =
     (if i \<in> set ids then map_option f (map_of ?reg i) else map_of ?reg i)"
    using Cons.IH [of ?reg] Cons.prems keys by simp
  show ?case using a IH Cons.prems(1) by (auto simp: update_conv')
qed

lemma assigned_to_register:
  "assigned_to (fst (register_agent s j ty caps ep now)) i = assigned_to s i"
  by (auto simp: register_agent_def assigned_to_def update_conv' new_agent_def
        split: option.splits dest: map_of_Some_key)

lemma assigned_to_for_agents:
  assumes "distinct ids" and "set ids \<subseteq> fst ` set (registered_agents s)"
  shows "assigned_to (s\<lparr>registered_agents := fst (for_agents f ids (registered_agents s))\<rparr>) i =
     (if i \<in> set ids
      then (case map_of (registered_agents s) i of None \<Rightarrow> [] | Some a \<Rightarrow> assigned_tasks (f a))
      else assigned_to s i)"
  by (simp add: assigned_to_def for_agents_map_of [OF assms] split: option.splits)

lemma assigned_to_more [simp]:
  "assigned_to (s\<lparr>active_tasks := x\<rparr>) i = assigned_to s i"
  "assigned_to (s\<lparr>task_history := y\<rparr>) i = assigned_to s i"
  "assigned_to (s\<lparr>metrics := z\<rparr>) i = assigned_to s i"
  by (simp_all add: assigned_to_def)

lemma assigned_step_allocate:
  assumes "wf_state s"
  shows "assigned_to (fst (allocate_task s ts uuid8 now)) i =
           apply_event i (event_of s (Allocate ts uuid8 now)) (assigned_to s i)"
proof (cases "suitable_agents (required_of ts) (registered_agents s) = []")
  case True
  then show ?thesis by (simp add: allocate_task_unallocated)
next
  case False
  have d: "distinct (map fst (registered_agents s))" using assms by (simp add: wf_state_def)
  note ids = chosen_ids [OF d False]
  have reg: "i \<in> set (map scored_id (fst (chosen s ts))) \<Longrightarrow>
               \<exists>a. map_of (registered_agents s) i = Some a"
    using ids(2) by (metis domD dom_map_of_conv_image_fst subsetD)
  show ?thesis
    using reg assigned_to_for_agents [OF ids, where f = "assign_task (resolve_task_id ts uuid8) now" and i = i]
    by (auto simp: allocate_task_allocated [OF False] new_allocation_def assign_task_def
          assigned_to_def)
qed

lemma assigned_step_update:
  assumes "wf_state s" and "holds_only_active s"
  shows "assigned_to (fst (update_task_status s tid status prog res now)) i =
           apply_event i (event_of s (Update tid status prog res now)) (assigned_to s i)"
proof (cases "map_of (active_tasks s) tid")
  case None
  then show ?thesis by (simp add: update_unknown)
next
  case (Some t)
  have ok: "task_ok (registered_agents s) (tid, t)" by (rule active_task_ok [OF assms(1) Some])
  show ?thesis
  proof (cases "terminal status")
    case False
    then show ?thesis by (simp add: update_progress [OF Some False])
  next
    case True
    have sub: "set (allocated_agents (allocation t)) \<subseteq> fst ` set (registered_agents s)"
      and dis: "distinct (allocated_agents (allocation t))"
      using ok by (auto simp: task_ok_def list_all_iff)
    have inv: "distinct (assigned_to s i)"
      and only: "tid \<in> set (assigned_to s i) \<Longrightarrow> i \<in> set (allocated_agents (allocation t))"
      using assms(2) Some unfolding holds_only_active_def by force+
    have rm: "remove1 tid (assigned_to s i) = filter (\<lambda>t. t \<noteq> tid) (assigned_to s i)"
      using inv by (simp add: distinct_remove1_removeAll removeAll_filter_not_eq) metis
    have out: "i \<notin> set (allocated_agents (allocation t)) \<Longrightarrow>
                 filter (\<lambda>t. t \<noteq> tid) (assigned_to s i) = assigned_to s i"
      using only by (auto simp: filter_id_conv)
    have notin: "tid \<notin> set (assigned_to s i) \<Longrightarrow>
                 filter (\<lambda>t. t \<noteq> tid) (assigned_to s i) = assigned_to s i"
      by (auto simp: filter_id_conv)
    have reg: "i \<in> set (allocated_agents (allocation t)) \<Longrightarrow>
               \<exists>a. map_of (registered_agents s) i = Some a"
      using sub by (metis domD dom_map_of_conv_image_fst subsetD)
    show ?thesis
    proof (cases "i \<in> set (allocated_agents (allocation t))")
      case False
      then show ?thesis
        using out True assigned_to_for_agents [OF dis sub, where f = "finish_task tid status" and i = i]
        by (simp add: update_terminal [OF Some True sub])
    next
      case yes: True
      then obtain a where a: "map_of (registered_agents s) i = Some a" using reg by blast
      then have as: "assigned_to s i = assigned_tasks a" by (simp add: assigned_to_def)
      show ?thesis
        using yes a True rm notin assigned_to_for_agents [OF dis sub, where f = "finish_task tid status" and i = i]
        by (simp add: update_terminal [OF Some True sub] finish_task_def Let_def as)
    qed
  qed
qed

text \<open>Every call changes an agent's list as its event says.\<close>

lemma assigned_step:
  "wf_state s \<Longrightarrow> holds_only_active s \<Longrightarrow>
   assigned_to (step s c) i = apply_event i (event_of s c) (assigned_to s i)"
  by (cases c) (simp_all add: assigned_to_register assigned_step_allocate assigned_step_update)

lemma event_of_allocated:
  "suitable_agents (required_of ts) (registered_agents s) \<noteq> [] \<Longrightarrow>
   event_of s (Allocate ts uuid8 now) =
     Allocated (resolve_task_id ts uuid8) (map scored_id (fst (chosen s ts)))"
  by (simp add: allocate_task_allocated new_allocation_def)

lemma holds_register:
  "holds_only_active s \<Longrightarrow> holds_only_active (fst (register_agent s j ty caps ep now))"
  unfolding holds_only_active_def assigned_to_register
  by (simp add: register_agent_def)

lemma holds_allocate:
  assumes "wf_state s" and "holds_only_active s" and "inactive s (resolve_task_id ts uuid8)"
  shows "holds_only_active (fst (allocate_task s ts uuid8 now))"
proof (cases "suitable_agents (required_of ts) (registered_agents s) = []")
  case True
  then show ?thesis using assms by (simp add: allocate_task_unallocated)
next
  case False
  let ?tid = "resolve_task_id ts uuid8"
  let ?ids = "map scored_id (fst (chosen s ts))"
  let ?s' = "fst (allocate_task s ts uuid8 now)"
  have none: "map_of (active_tasks s) ?tid = None"
    using assms(3) by (simp add: inactive_def active_ids_dom)
  have act: "map_of (active_tasks ?s') =
     (map_of (active_tasks s))(?tid \<mapsto> new_task ts (new_allocation ?tid (snd (chosen s ts)) ?ids
         (priority_of ts) now) now)"
    by (simp add: allocate_task_allocated [OF False] update_conv')
  have asg: "\<And>i. assigned_to ?s' i = (if i \<in> set ?ids then assigned_to s i @ [?tid] else assigned_to s i)"
    using assigned_step_allocate [OF assms(1), of ts uuid8 now] event_of_allocated [OF False, of uuid8 now]
    by simp
  have old: "\<And>i. ?tid \<notin> set (assigned_to s i)"
    using assms(2) none unfolding holds_only_active_def by fastforce
  show ?thesis
    unfolding holds_only_active_def
  proof (intro allI conjI ballI)
    fix i
    show "distinct (assigned_to ?s' i)"
      using assms(2) old [of i] unfolding asg holds_only_active_def by simp
  next
    fix i tid
    assume m: "tid \<in> set (assigned_to ?s' i)"
    show "\<exists>t. map_of (active_tasks ?s') tid = Some t \<and> i \<in> set (allocated_agents (allocation t))"
    proof (cases "tid = ?tid")
      case True
      then have "i \<in> set ?ids" using m old [of i] unfolding asg by (auto split: if_splits)
      then show ?thesis using True unfolding act by (simp add: new_task_def new_allocation_def)
    next
      case False
      then have "tid \<in> set (assigned_to s i)" using m unfolding asg by (auto split: if_splits)
      then show ?thesis using assms(2) False unfolding act holds_only_active_def by simp
    qed
  qed
qed

lemma holds_update:
  assumes "wf_state s" and "holds_only_active s"
  shows "holds_only_active (fst (update_task_status s tid status prog res now))"
proof (cases "map_of (active_tasks s) tid")
  case None
  then show ?thesis using assms by (simp add: update_unknown)
next
  case (Some t)
  let ?s' = "fst (update_task_status s tid status prog res now)"
  have ok: "task_ok (registered_agents s) (tid, t)" by (rule active_task_ok [OF assms(1) Some])
  have sub: "set (allocated_agents (allocation t)) \<subseteq> fst ` set (registered_agents s)"
    using ok by (auto simp: task_ok_def list_all_iff)
  note asg = assigned_step_update [OF assms, of tid status prog res now]
  show ?thesis
  proof (cases "terminal status")
    case False
    have act: "map_of (active_tasks ?s') =
        (map_of (active_tasks s))(tid \<mapsto> updated_task t status prog res now)"
      by (simp add: update_progress [OF Some False] update_conv')
    have same: "\<And>i. assigned_to ?s' i = assigned_to s i"
      using asg False by simp
    show ?thesis
      using assms(2) Some unfolding holds_only_active_def same act by fastforce
  next
    case True
    have act: "map_of (active_tasks ?s') = (map_of (active_tasks s))(tid := None)"
      by (simp add: update_terminal [OF Some True sub] delete_conv')
    have ev: "event_of s (Update tid status prog res now) = Finished tid"
      using True by (simp add: update_terminal [OF Some True sub])
    have less: "\<And>i. assigned_to ?s' i = filter (\<lambda>t. t \<noteq> tid) (assigned_to s i)"
      using asg ev by simp
    show ?thesis
      using assms(2) unfolding holds_only_active_def less act by auto
  qed
qed

lemma holds_step:
  assumes "wf_state s" and "holds_only_active s" and "guarded inactive s (c # cs)"
  shows "holds_only_active (step s c) \<and> guarded inactive (step s c) cs"
  using assms by (cases c) (auto simp: holds_register holds_allocate holds_update)

lemma pending_step:
  "filter (\<lambda>t. Finished t \<notin> set es) (apply_event i e xs) @ pending i es =
   filter (\<lambda>t. Finished t \<notin> set (e # es)) xs @ pending i (e # es)"
proof (cases e)
  case (Allocated tid ids)
  then show ?thesis by simp
next
  case (Finished tid)
  have "filter (\<lambda>t. Finished t \<notin> set es) (filter (\<lambda>t. t \<noteq> tid) xs) =
        filter (\<lambda>t. Finished t \<notin> set (Finished tid # es)) xs"
    by (induction xs) auto
  then show ?thesis using Finished by simp
next
  case Silent
  then show ?thesis by simp
qed

lemma assigned_run:
  "wf_state s \<Longrightarrow> holds_only_active s \<Longrightarrow> guarded inactive s cs \<Longrightarrow>
   assigned_to (run s cs) i =
     filter (\<lambda>t. Finished t \<notin> set (events s cs)) (assigned_to s i) @ pending i (events s cs)"
proof (induction cs arbitrary: s)
  case Nil
  then show ?case by simp
next
  case (Cons c cs)
  have wf: "wf_state (step s c)" by (rule wf_step [OF Cons.prems(1)])
  have h: "holds_only_active (step s c)" and g: "guarded inactive (step s c) cs"
    using holds_step [OF Cons.prems] by simp_all
  have "assigned_to (run (step s c) cs) i =
     filter (\<lambda>t. Finished t \<notin> set (events (step s c) cs)) (assigned_to (step s c) i)
       @ pending i (events (step s c) cs)"
    by (rule Cons.IH [OF wf h g])
  also have "assigned_to (step s c) i = apply_event i (event_of s c) (assigned_to s i)"
    by (rule assigned_step [OF Cons.prems(1,2)])
  finally show ?case by (simp only: run.simps events.simps pending_step)
qed

lemma finished_le_allocations: "finished_of i es \<le> allocations_to i es"
  by (induction i es rule: finished_of.induct) auto

lemma length_pending: "length (pending i es) = allocations_to i es - finished_of i es"
  using finished_le_allocations [of i "tl es"]
  by (induction i es rule: pending.induct) (auto simp: finished_le_allocations Suc_diff_le)

lemma holds_initial: "holds_only_active initial"
  by (simp add: holds_only_active_def assigned_to_def initial_def)

section \<open>The score and the specification's formula\<close>

text \<open>
  For an agent that has every required capability and holds at most ten tasks, the score
  \<^verbatim>\<open>allocate_task\<close> computes is the specification's.
\<close>

lemma score_agent_within_capacity:
  assumes "has_all required a" and "length (assigned_tasks a) \<le> 10"
  shows "score (score_agent required i a) = spec_suitability required a"
proof -
  have sub: "set required \<subseteq> set (capabilities a)" using assms(1) by (simp add: has_all_subset)
  then have f: "filter (\<lambda>cap. cap \<in> set (capabilities a)) required = required"
    by (auto simp: filter_id_conv)
  have i: "set required \<inter> set (capabilities a) = set required" using sub by blast
  have c: "required \<noteq> [] \<Longrightarrow> card (set required) \<noteq> 0" by simp
  have l: "min 1 (real (length (assigned_tasks a)) / 10) = real (length (assigned_tasks a)) / 10"
    using assms(2) by (simp add: min_def)
  show ?thesis
    using c by (simp add: score_agent_def spec_suitability_def spec_capability_score_def
        spec_load_factor_def Let_def f i l)
qed

section \<open>The running average\<close>

text \<open>
  In exact arithmetic the update of \<^verbatim>\<open>success_rate\<close> keeps the product of the rate and the
  number of finished tasks equal to the number of completed ones; the initial rate 1.0 has
  weight zero. The source computes in binary floating point, where the quotient is rounded
  at every update.
\<close>

lemma finish_task_running_average:
  assumes "success_rate (performance a) * real (tasks_completed (performance a)) = real k"
  shows "success_rate (performance (finish_task tid status a))
           * real (tasks_completed (performance (finish_task tid status a)))
         = real (k + (if status = ''completed'' then 1 else 0))"
  using assms by (simp add: finish_task_def Let_def)

section \<open>The claims\<close>

subsection \<open>register_agent\<close>

text \<open>
  C8. \<^verbatim>\<open>register_agent\<close> returns false and changes nothing when the agent identifier is
  already registered. Otherwise it returns true and appends one record to the registry:
  the given type, capabilities and endpoint, status \<^verbatim>\<open>active\<close>, no assigned task,
  \<^verbatim>\<open>tasks_completed = 0\<close>, \<^verbatim>\<open>success_rate = 1.0\<close>, \<^verbatim>\<open>average_response_time = 0\<close>; the
  tasks, the history and the system metrics stay as they were.
\<close>

theorem register_agent_spec:
  assumes "register_agent s i ty caps ep now = (s', ok)"
  shows "(i \<in> fst ` set (registered_agents s) \<longrightarrow> \<not> ok \<and> s' = s) \<and>
         (i \<notin> fst ` set (registered_agents s) \<longrightarrow>
            ok \<and>
            (\<exists>a. registered_agents s' = registered_agents s @ [(i, a)] \<and>
                 agent_type a = ty \<and> capabilities a = caps \<and> endpoint a = ep \<and>
                 agent_status a = ''active'' \<and> assigned_tasks a = [] \<and>
                 tasks_completed (performance a) = 0 \<and>
                 success_rate (performance a) = 1 \<and>
                 average_response_time (performance a) = 0) \<and>
            active_tasks s' = active_tasks s \<and> task_history s' = task_history s \<and>
            metrics s' = metrics s)"
  using assms
  by (auto simp: register_agent_def new_agent_def update_fresh split: if_splits)

theorem register_agent_spec_witness:
  "''a1'' \<notin> fst ` set (registered_agents initial) \<and>
   snd (register_agent initial ''a1'' ''worker'' [''nlp''] None 0) \<and>
   map fst (registered_agents (fst (register_agent initial ''a1'' ''worker'' [''nlp''] None 0)))
     = [''a1''] \<and>
   ''a1'' \<in> fst ` set (registered_agents (run initial [Register ''a1'' ''worker'' [''nlp''] None 0])) \<and>
   register_agent (run initial [Register ''a1'' ''worker'' [''nlp''] None 0])
       ''a1'' ''other'' [] None 1
     = (run initial [Register ''a1'' ''worker'' [''nlp''] None 0], False)"
proof -
  let ?s1 = "run initial [Register ''a1'' ''worker'' [''nlp''] None 0]"
  have fresh: "''a1'' \<notin> fst ` set (registered_agents initial)"
    by (simp add: initial_def)
  have present: "''a1'' \<in> fst ` set (registered_agents ?s1)"
    by (simp add: initial_def register_agent_def)
  have first: "register_agent initial ''a1'' ''worker'' [''nlp''] None 0 =
      (fst (register_agent initial ''a1'' ''worker'' [''nlp''] None 0),
       snd (register_agent initial ''a1'' ''worker'' [''nlp''] None 0))"
    by simp
  have second: "register_agent ?s1 ''a1'' ''other'' [] None 1 =
      (fst (register_agent ?s1 ''a1'' ''other'' [] None 1),
       snd (register_agent ?s1 ''a1'' ''other'' [] None 1))"
    by simp
  from register_agent_spec [OF first] fresh
  have a: "snd (register_agent initial ''a1'' ''worker'' [''nlp''] None 0) \<and>
     map fst (registered_agents (fst (register_agent initial ''a1'' ''worker'' [''nlp''] None 0)))
       = map fst (registered_agents initial) @ [''a1'']"
    by auto
  from register_agent_spec [OF second] present
  have b: "\<not> snd (register_agent ?s1 ''a1'' ''other'' [] None 1) \<and>
     fst (register_agent ?s1 ''a1'' ''other'' [] None 1) = ?s1"
    by blast
  have c: "register_agent ?s1 ''a1'' ''other'' [] None 1 = (?s1, False)"
    using b second by (metis (full_types))
  show ?thesis using a c fresh present by (simp add: initial_def)
qed

subsection \<open>The suitability score\<close>

text \<open>
  C1. The claim: the score of every scored agent is
  \<open>(capability_score * 0.5 + success_rate * 0.3) * (1 - load_factor * 0.8)\<close> with
  \<open>load_factor = min (1.0, |assigned_tasks| / 10)\<close>. The source divides the number of
  assigned tasks by ten under the comment \<^verbatim>\<open>(0-1 scale)\<close> and never caps the quotient, and no
  call limits an agent to ten tasks. After one agent has been registered and eleven tasks
  have been allocated to it, the next call computes load factor \<open>11/10\<close> and score
  \<open>12/125\<close>, where the capped formula gives load factor \<open>1\<close> and score \<open>4/25\<close>.
\<close>

theorem load_factor_not_capped:
  "suitable_agents (required_of (task_for ''t12'' [])) (registered_agents (run initial eleven_tasks))
     = [\<lparr>scored_id = ''a1'', score = 12 / 125, load_factor = 11 / 10\<rparr>] \<and>
   map (spec_suitability (required_of (task_for ''t12'' [])) \<circ> snd)
       (registered_agents (run initial eleven_tasks)) = [4 / 25] \<and>
   map (spec_load_factor \<circ> snd) (registered_agents (run initial eleven_tasks)) = [1]"
  by code_simp

subsection \<open>Active tasks and the archive\<close>

text \<open>
  C2, as stated, fails: a caller may allocate a task under an identifier that is already
  archived. After \<^verbatim>\<open>t\<close> has been allocated, completed and allocated again, \<^verbatim>\<open>t\<close> is both
  active and archived; when the second task fails, \<^verbatim>\<open>t\<close> is archived twice.
\<close>

theorem archive_reuse_counterexample:
  "active_ids (run initial resubmitted) = [''t''] \<and>
   history_ids (run initial resubmitted) = [''t''] \<and>
   \<not> archive_consistent (run initial resubmitted) \<and>
   history_ids (run initial (resubmitted @ [Update ''t'' ''failed'' None None 4])) = [''t'', ''t'']"
  by code_simp

text \<open>
  C2, amended. In every state reached from the initial state by \<^verbatim>\<open>register_agent\<close>,
  \<^verbatim>\<open>allocate_task\<close> and \<^verbatim>\<open>update_task_status\<close> calls in which no \<^verbatim>\<open>allocate_task\<close> call
  uses a task identifier that is archived at the call, no task identifier is both active and
  archived, and none is archived twice.
\<close>

theorem archive_consistent_fresh_ids:
  "guarded unarchived initial cs \<Longrightarrow> archive_consistent (run initial cs)"
  by (rule archive_run [OF wf_initial]) (simp_all add: archive_consistent_def initial_def active_ids_def history_ids_def)

theorem archive_consistent_fresh_ids_witness:
  "guarded unarchived initial reallocated \<and> archive_consistent (run initial reallocated) \<and>
   active_ids (run initial reallocated) = [] \<and>
   history_ids (run initial reallocated) = [''t'']"
proof -
  have g: "guarded unarchived initial reallocated" by code_simp
  have a: "active_ids (run initial reallocated) = []" by code_simp
  have h: "history_ids (run initial reallocated) = [''t'']" by code_simp
  show ?thesis using archive_consistent_fresh_ids [OF g] g a h by simp
qed

subsection \<open>The length of the assigned-task list\<close>

text \<open>
  C4, as stated, fails: when a second task is allocated under the identifier of an active
  task, the record of the first is overwritten. Task \<^verbatim>\<open>t\<close> is allocated to \<^verbatim>\<open>a1\<close>, then
  allocated again, to \<^verbatim>\<open>a2\<close>, then completed: only \<^verbatim>\<open>a2\<close> drops it. One allocation
  selected \<^verbatim>\<open>a1\<close>, its task has reached a terminal status and no task is active, and
  \<^verbatim>\<open>a1\<close> still lists it.
\<close>

theorem assigned_count_counterexample:
  "events initial reallocated =
     [Silent, Silent, Silent, Allocated ''t'' [''a1''], Allocated ''t'' [''a2''], Finished ''t''] \<and>
   active_ids (run initial reallocated) = [] \<and>
   assigned_to (run initial reallocated) ''a1'' = [''t''] \<and>
   allocations_to ''a1'' (events initial reallocated) = 1 \<and>
   finished_of ''a1'' (events initial reallocated) = 1 \<and>
   length (assigned_to (run initial reallocated) ''a1'') \<noteq>
     allocations_to ''a1'' (events initial reallocated) - finished_of ''a1'' (events initial reallocated)"
  by code_simp

text \<open>
  C4, amended. For every agent and every sequence of \<^verbatim>\<open>register_agent\<close>, \<^verbatim>\<open>allocate_task\<close>
  and \<^verbatim>\<open>update_task_status\<close> calls in which no \<^verbatim>\<open>allocate_task\<close> call uses the identifier
  of a task that is active at the call, the length of the agent's assigned-task list is the
  number of allocations that selected the agent minus the number of those whose task has
  since reached a terminal status.
\<close>

theorem assigned_count_no_reuse:
  assumes "guarded inactive initial cs"
  shows "length (assigned_to (run initial cs) i) =
           allocations_to i (events initial cs) - finished_of i (events initial cs)"
proof -
  have "assigned_to initial i = []" by (simp add: assigned_to_def initial_def)
  then show ?thesis
    using assigned_run [OF wf_initial holds_initial assms, of i] by (simp add: length_pending)
qed

theorem assigned_count_no_reuse_witness:
  "guarded inactive initial resubmitted \<and>
   assigned_to (run initial resubmitted) ''a1'' = [''t''] \<and>
   allocations_to ''a1'' (events initial resubmitted) = 2 \<and>
   finished_of ''a1'' (events initial resubmitted) = 1"
proof -
  have g: "guarded inactive initial resubmitted" by code_simp
  have a: "allocations_to ''a1'' (events initial resubmitted) = 2" by code_simp
  have f: "finished_of ''a1'' (events initial resubmitted) = 1" by code_simp
  have t: "assigned_to (run initial resubmitted) ''a1'' = [''t'']" by code_simp
  show ?thesis using assigned_count_no_reuse [OF g, of "''a1''"] g a f t by simp
qed

subsection \<open>Single and parallel allocation\<close>

text \<open>
  C5, as stated, fails for a negative \<^verbatim>\<open>parallelism\<close>: the slice
  \<^verbatim>\<open>suitable_agents[:num_agents]\<close> then drops agents from the end. With three eligible agents
  and \<^verbatim>\<open>parallelism = -1\<close> the minimum is \<open>-1\<close> and two agents are selected.
\<close>

theorem negative_parallelism_counterexample:
  "eligible_ids (run initial three_agents) (in_parallel (Some (- 1))) = [''a1'', ''a2'', ''a3''] \<and>
   spec_count (run initial three_agents) (in_parallel (Some (- 1))) = - 1 \<and>
   snd (allocate_task (run initial three_agents) (in_parallel (Some (- 1))) [] 1) =
     Inr (Alloc \<lparr>alloc_task_id = ''t'', allocation_type = ''parallel'',
                  allocated_agents = [''a1'', ''a2''], allocation_time = 1,
                  expected_completion = None, alloc_priority = 5,
                  alloc_status = ''allocated''\<rparr>)"
  by code_simp

text \<open>
  C5, amended. For every task specification with at least one eligible agent and a
  \<^verbatim>\<open>parallelism\<close> that is absent or not negative: when \<^verbatim>\<open>parallel_execution\<close> is true and
  more than one agent is eligible, \<^verbatim>\<open>allocate_task\<close> selects
  \<open>min (parallelism, eligible count)\<close> agents and the allocation type is \<^verbatim>\<open>parallel\<close>;
  otherwise it selects one agent and the type is \<^verbatim>\<open>single\<close>. The selected agents are
  eligible, listed once and in descending order of score, and no eligible agent left out has
  a higher score than a selected one.
\<close>

theorem allocate_task_selection:
  assumes dict: "distinct (map fst (registered_agents s))"
      and some: "eligible_ids s ts \<noteq> []"
      and nonneg: "case parallelism ts of None \<Rightarrow> True | Some p \<Rightarrow> 0 \<le> p"
  shows "\<exists>s' al. allocate_task s ts uuid8 now = (s', Inr (Alloc al)) \<and>
           allocation_type al = (if wants_parallel s ts then ''parallel'' else ''single'') \<and>
           int (length (allocated_agents al)) = spec_count s ts \<and>
           distinct (allocated_agents al) \<and>
           set (allocated_agents al) \<subseteq> set (eligible_ids s ts) \<and>
           sorted_wrt (\<lambda>x y. score_of s ts y \<le> score_of s ts x) (allocated_agents al) \<and>
           (\<forall>x \<in> set (allocated_agents al). \<forall>y \<in> set (eligible_ids s ts) - set (allocated_agents al).
               score_of s ts y \<le> score_of s ts x)"
proof -
  let ?cs = "suitable_agents (required_of ts) (registered_agents s)"
  let ?srt = "sort_by_score ?cs"
  let ?k = "nat (spec_count s ts)"
  let ?sel = "take ?k ?srt"
  let ?al = "new_allocation (resolve_task_id ts uuid8) (snd (chosen s ts))
              (map scored_id (fst (chosen s ts))) (priority_of ts) now"
  have ne: "?cs \<noteq> []" using some by (simp add: suitable_Nil_iff)
  have sel: "fst (chosen s ts) = ?sel" by (rule chosen_take(1) [OF some nonneg])
  have ids: "allocated_agents ?al = map scored_id ?sel"
    by (simp add: new_allocation_def sel)
  have len: "length ?cs = length (eligible_ids s ts)" by (simp add: eligible_ids_suitable)
  have pos: "1 \<le> int (length (eligible_ids s ts))"
    using some by (cases "eligible_ids s ts") auto
  have count: "0 \<le> spec_count s ts \<and> spec_count s ts \<le> int (length (eligible_ids s ts))"
    using nonneg pos by (auto simp: spec_count_def min_def split: option.splits)
  have 1: "int (length (allocated_agents ?al)) = spec_count s ts"
    using count by (simp add: ids len min_def) linarith
  have dsrt: "distinct (map scored_id ?srt)"
    by (simp add: distinct_ids_sort_by_score suitable_ids_distinct [OF dict])
  have 2: "distinct (allocated_agents ?al)"
    unfolding ids using dsrt by (simp add: take_map [symmetric] del: take_map)
  have "set ?sel \<subseteq> set ?cs" using set_take_subset [of ?k ?srt] by simp
  then have 3: "set (allocated_agents ?al) \<subseteq> set (eligible_ids s ts)"
    unfolding ids eligible_ids_suitable by auto
  have sc: "\<And>c. c \<in> set ?srt \<Longrightarrow> score_of s ts (scored_id c) = score c"
    using score_of_suitable [OF dict] by simp
  have sc2: "\<And>c. c \<in> set ?sel \<Longrightarrow> score_of s ts (scored_id c) = score c"
    using sc by (blast dest: in_set_takeD)
  have "sorted_wrt (\<lambda>x y. score y \<le> score x) ?sel"
    using sorted_desc_sort_by_score [of ?cs] by (rule sorted_wrt_take)
  then have 4: "sorted_wrt (\<lambda>x y. score_of s ts y \<le> score_of s ts x) (allocated_agents ?al)"
    unfolding ids sorted_wrt_map
    by (rule sorted_wrt_mono_rel [rotated]) (simp add: sc2)
  have 5: "score_of s ts y \<le> score_of s ts x"
    if x: "x \<in> set (allocated_agents ?al)"
      and y: "y \<in> set (eligible_ids s ts) - set (allocated_agents ?al)" for x y
  proof -
    from x obtain c where c: "c \<in> set ?sel" "x = scored_id c" unfolding ids by auto
    from y obtain d where d: "d \<in> set ?srt" "y = scored_id d"
      unfolding eligible_ids_suitable by auto
    have "d \<notin> set ?sel" using y d(2) unfolding ids by auto
    then have "d \<in> set (drop ?k ?srt)"
      using d(1) by (metis Un_iff append_take_drop_id set_append)
    then have "score d \<le> score c"
      using take_top [OF sorted_desc_sort_by_score c(1)] by blast
    then show ?thesis using c d sc sc2 by simp
  qed
  have ty: "allocation_type ?al = (if wants_parallel s ts then ''parallel'' else ''single'')"
    using chosen_take(2) [OF some nonneg] by (simp add: new_allocation_def)
  show ?thesis
    using allocate_task_allocated [OF ne, of uuid8 now] ty 1 2 3 4 5 by blast
qed

theorem allocate_task_selection_witness:
  "distinct (map fst (registered_agents (run initial one_busy))) \<and>
   eligible_ids (run initial one_busy) (in_parallel (Some 2)) = [''a1'', ''a2'', ''a3''] \<and>
   map (score_of (run initial one_busy) (in_parallel (Some 2))) [''a1'', ''a2'', ''a3'']
     = [92 / 125, 4 / 5, 4 / 5] \<and>
   spec_count (run initial one_busy) (in_parallel (Some 2)) = 2 \<and>
   snd (allocate_task (run initial one_busy) (in_parallel (Some 2)) [] 2) =
     Inr (Alloc \<lparr>alloc_task_id = ''t'', allocation_type = ''parallel'',
                  allocated_agents = [''a2'', ''a3''], allocation_time = 2,
                  expected_completion = None, alloc_priority = 5,
                  alloc_status = ''allocated''\<rparr>)"
proof -
  have d: "distinct (map fst (registered_agents (run initial one_busy)))" by code_simp
  have e: "eligible_ids (run initial one_busy) (in_parallel (Some 2)) = [''a1'', ''a2'', ''a3'']"
    by code_simp
  have ne: "eligible_ids (run initial one_busy) (in_parallel (Some 2)) \<noteq> []"
    unfolding e by simp
  have p: "case parallelism (in_parallel (Some 2)) of None \<Rightarrow> True | Some p \<Rightarrow> 0 \<le> p"
    by (simp add: in_parallel_def)
  have sc: "map (score_of (run initial one_busy) (in_parallel (Some 2))) [''a1'', ''a2'', ''a3'']
     = [92 / 125, 4 / 5, 4 / 5]" by code_simp
  have c: "spec_count (run initial one_busy) (in_parallel (Some 2)) = 2" by code_simp
  have r: "snd (allocate_task (run initial one_busy) (in_parallel (Some 2)) [] 2) =
     Inr (Alloc \<lparr>alloc_task_id = ''t'', allocation_type = ''parallel'',
                  allocated_agents = [''a2'', ''a3''], allocation_time = 2,
                  expected_completion = None, alloc_priority = 5,
                  alloc_status = ''allocated''\<rparr>)" by code_simp
  show ?thesis
    using allocate_task_selection [OF d ne p, of "[]" 2] d e sc c r by simp
qed

text \<open>
  C10. When \<^verbatim>\<open>parallel_execution\<close> is true, \<^verbatim>\<open>parallelism\<close> is absent and at least two
  agents are eligible, \<^verbatim>\<open>allocate_task\<close> selects exactly two agents.
\<close>

theorem parallel_default_two:
  assumes "parallel_execution ts = Some True" and "parallelism ts = None"
      and "2 \<le> length (eligible_ids s ts)"
  shows "\<exists>s' al. allocate_task s ts uuid8 now = (s', Inr (Alloc al)) \<and>
                 length (allocated_agents al) = 2 \<and> allocation_type al = ''parallel''"
proof -
  have some: "eligible_ids s ts \<noteq> []" using assms(3) by auto
  have ne: "suitable_agents (required_of ts) (registered_agents s) \<noteq> []"
    using some by (simp add: suitable_Nil_iff)
  have nonneg: "case parallelism ts of None \<Rightarrow> True | Some p \<Rightarrow> 0 \<le> p"
    using assms(2) by simp
  have par: "wants_parallel s ts" using assms(1,3) by (simp add: wants_parallel_def)
  have cnt: "spec_count s ts = 2" using par assms(2,3) by (simp add: spec_count_def)
  have len: "length (suitable_agents (required_of ts) (registered_agents s)) = length (eligible_ids s ts)"
    by (simp add: eligible_ids_suitable)
  have "length (fst (chosen s ts)) = 2"
    using assms(3) by (simp add: chosen_take(1) [OF some nonneg] cnt len)
  moreover have "snd (chosen s ts) = ''parallel''"
    using par by (simp add: chosen_take(2) [OF some nonneg])
  ultimately show ?thesis
    using allocate_task_allocated [OF ne, of uuid8 now] by (simp add: new_allocation_def)
qed

theorem parallel_default_two_witness:
  "parallel_execution (in_parallel None) = Some True \<and> parallelism (in_parallel None) = None \<and>
   eligible_ids (run initial three_agents) (in_parallel None) = [''a1'', ''a2'', ''a3''] \<and>
   snd (allocate_task (run initial three_agents) (in_parallel None) [] 1) =
     Inr (Alloc \<lparr>alloc_task_id = ''t'', allocation_type = ''parallel'',
                  allocated_agents = [''a1'', ''a2''], allocation_time = 1,
                  expected_completion = None, alloc_priority = 5,
                  alloc_status = ''allocated''\<rparr>)"
proof -
  have p: "parallel_execution (in_parallel None) = Some True" by (simp add: in_parallel_def)
  have k: "parallelism (in_parallel None) = None" by (simp add: in_parallel_def)
  have e: "eligible_ids (run initial three_agents) (in_parallel None) = [''a1'', ''a2'', ''a3'']"
    by code_simp
  have n: "2 \<le> length (eligible_ids (run initial three_agents) (in_parallel None))"
    unfolding e by simp
  have r: "snd (allocate_task (run initial three_agents) (in_parallel None) [] 1) =
     Inr (Alloc \<lparr>alloc_task_id = ''t'', allocation_type = ''parallel'',
                  allocated_agents = [''a1'', ''a2''], allocation_time = 1,
                  expected_completion = None, alloc_priority = 5,
                  alloc_status = ''allocated''\<rparr>)" by code_simp
  show ?thesis using parallel_default_two [OF p k n, of "[]" 1] p k e r by simp
qed

subsection \<open>No suitable agent\<close>

text \<open>
  C6. When no active registered agent has all the required capabilities, \<^verbatim>\<open>allocate_task\<close>
  returns status \<^verbatim>\<open>unallocated\<close> with reason \<^verbatim>\<open>no_suitable_agents\<close>, and the registry, the
  active tasks and the history are unchanged (the whole state is).
\<close>

theorem allocate_task_no_suitable_agents:
  assumes "\<forall>(i, a) \<in> set (registered_agents s).
             agent_status a = ''active'' \<longrightarrow> \<not> set (required_of ts) \<subseteq> set (capabilities a)"
  shows "allocate_task s ts uuid8 now =
     (s, Inr (Unalloc \<lparr>un_task_id = resolve_task_id ts uuid8, un_status = ''unallocated'',
                      reason = ''no_suitable_agents'', timestamp = now\<rparr>))"
proof -
  have "filter (\<lambda>(i, a). eligible (required_of ts) a) (registered_agents s) = []"
    using assms by (auto simp: filter_empty_conv eligible_def has_all_subset)
  then have "suitable_agents (required_of ts) (registered_agents s) = []"
    by (simp add: suitable_agents_filter)
  then show ?thesis by (rule allocate_task_unallocated)
qed

theorem allocate_task_no_suitable_agents_witness:
  "allocate_task (run initial three_agents) (task_for ''t'' [''audio'']) [] 1 =
     (run initial three_agents,
      Inr (Unalloc \<lparr>un_task_id = ''t'', un_status = ''unallocated'',
                     reason = ''no_suitable_agents'', timestamp = 1\<rparr>)) \<and>
   map fst (registered_agents (run initial three_agents)) = [''a1'', ''a2'', ''a3'']"
proof -
  have h: "\<forall>(i, a) \<in> set (registered_agents (run initial three_agents)).
             agent_status a = ''active'' \<longrightarrow>
             \<not> set (required_of (task_for ''t'' [''audio''])) \<subseteq> set (capabilities a)"
    by code_simp
  have k: "map fst (registered_agents (run initial three_agents)) = [''a1'', ''a2'', ''a3'']"
    by code_simp
  show ?thesis
    using allocate_task_no_suitable_agents [OF h, of "[]" 1] k
    by (simp add: resolve_task_id_def task_for_def)
qed

subsection \<open>update_task_status\<close>

text \<open>
  C7. In every reachable state \<^verbatim>\<open>update_task_status\<close> returns true if and only if the task
  identifier is active at the call (it does not raise), and when it returns false the state
  is unchanged.
\<close>

theorem update_task_status_result:
  assumes "update_task_status (run initial cs) tid status prog res now = (s', r)"
  shows "r = Inr (tid \<in> set (active_ids (run initial cs))) \<and>
         (tid \<notin> set (active_ids (run initial cs)) \<longrightarrow> s' = run initial cs)"
proof (cases "map_of (active_tasks (run initial cs)) tid")
  case None
  then show ?thesis using assms by (simp add: update_unknown active_ids_dom)
next
  case (Some t)
  have ok: "task_ok (registered_agents (run initial cs)) (tid, t)"
    by (rule active_task_ok [OF wf_reachable Some])
  then have sub: "set (allocated_agents (allocation t)) \<subseteq> fst ` set (registered_agents (run initial cs))"
    by (auto simp: task_ok_def list_all_iff)
  show ?thesis
  proof (cases "terminal status")
    case True
    show ?thesis using assms Some by (simp add: update_terminal [OF Some True sub] active_ids_dom)
  next
    case False
    show ?thesis using assms Some by (simp add: update_progress [OF Some False] active_ids_dom)
  qed
qed

theorem update_task_status_result_witness:
  "''t2'' \<in> set (active_ids (run initial two_rounds)) \<and>
   snd (update_task_status (run initial two_rounds) ''t2'' ''in_progress'' (Some 50) None 5)
     = Inr True \<and>
   ''t1'' \<notin> set (active_ids (run initial two_rounds)) \<and>
   update_task_status (run initial two_rounds) ''t1'' ''failed'' None None 5
     = (run initial two_rounds, Inr False)"
proof -
  let ?s = "run initial two_rounds"
  have a: "''t2'' \<in> set (active_ids ?s)" by code_simp
  have b: "''t1'' \<notin> set (active_ids ?s)" by code_simp
  have e1: "update_task_status ?s ''t2'' ''in_progress'' (Some 50) None 5 =
     (fst (update_task_status ?s ''t2'' ''in_progress'' (Some 50) None 5),
      snd (update_task_status ?s ''t2'' ''in_progress'' (Some 50) None 5))" by simp
  have e2: "update_task_status ?s ''t1'' ''failed'' None None 5 =
     (fst (update_task_status ?s ''t1'' ''failed'' None None 5),
      snd (update_task_status ?s ''t1'' ''failed'' None None 5))" by simp
  have r1: "snd (update_task_status ?s ''t2'' ''in_progress'' (Some 50) None 5) = Inr True"
    using update_task_status_result [OF e1] a by simp
  have r2: "snd (update_task_status ?s ''t1'' ''failed'' None None 5) = Inr False \<and>
            fst (update_task_status ?s ''t1'' ''failed'' None None 5) = ?s"
    using update_task_status_result [OF e2] b by simp
  have "update_task_status ?s ''t1'' ''failed'' None None 5 = (?s, Inr False)"
    using r2 e2 by simp
  then show ?thesis using a b r1 by simp
qed

text \<open>
  C9, as stated, fails: the status of an allocation record is not mirrored from the task.
  After a task has been completed, the archived task has status \<^verbatim>\<open>completed\<close> and its
  allocation record still has status \<^verbatim>\<open>allocated\<close>.
\<close>

theorem allocation_status_counterexample:
  "map task_status (task_history (run initial one_done)) = [''completed''] \<and>
   map (alloc_status \<circ> allocation) (task_history (run initial one_done)) = [''allocated'']"
  by code_simp

text \<open>
  C9, amended. After an allocation record is created by \<^verbatim>\<open>allocate_task\<close>, no field of it,
  the status included, is ever modified. In every reachable state, \<^verbatim>\<open>register_agent\<close>
  leaves the active tasks and the history as they are; \<^verbatim>\<open>allocate_task\<close> leaves the history
  and the records of the tasks with another identifier as they are; and when
  \<^verbatim>\<open>update_task_status\<close> sets the status of an active task, the task's allocation record
  (and the copy archived with the task on a terminal status) is the record as it was, with
  the status \<^verbatim>\<open>allocated\<close> it was created with: the task takes the new status, the other
  active tasks are untouched and the earlier history is kept.
\<close>

theorem allocation_record_frozen:
  assumes "s = run initial cs"
  shows "active_tasks (fst (register_agent s i ty caps ep now)) = active_tasks s \<and>
         task_history (fst (register_agent s i ty caps ep now)) = task_history s \<and>
         task_history (fst (allocate_task s ts uuid8 now)) = task_history s \<and>
         (\<forall>k. k \<noteq> resolve_task_id ts uuid8 \<longrightarrow>
              map_of (active_tasks (fst (allocate_task s ts uuid8 now))) k = map_of (active_tasks s) k) \<and>
         (\<forall>t s' r. map_of (active_tasks s) tid = Some t \<and>
                  update_task_status s tid status prog res now = (s', r) \<longrightarrow>
            r = Inr True \<and> alloc_status (allocation t) = ''allocated'' \<and>
            (if terminal status
             then map_of (active_tasks s') tid = None \<and>
                  (\<exists>t'. task_history s' = task_history s @ [t'] \<and>
                        allocation t' = allocation t \<and> task_status t' = status)
             else task_history s' = task_history s \<and>
                  (\<exists>t'. map_of (active_tasks s') tid = Some t' \<and>
                        allocation t' = allocation t \<and> task_status t' = status)) \<and>
            (\<forall>k. k \<noteq> tid \<longrightarrow> map_of (active_tasks s') k = map_of (active_tasks s) k))"
proof -
  have reg: "active_tasks (fst (register_agent s i ty caps ep now)) = active_tasks s \<and>
         task_history (fst (register_agent s i ty caps ep now)) = task_history s"
    by (simp add: register_agent_def)
  have al: "task_history (fst (allocate_task s ts uuid8 now)) = task_history s \<and>
         (\<forall>k. k \<noteq> resolve_task_id ts uuid8 \<longrightarrow>
              map_of (active_tasks (fst (allocate_task s ts uuid8 now))) k = map_of (active_tasks s) k)"
  proof (cases "suitable_agents (required_of ts) (registered_agents s) = []")
    case True
    then show ?thesis by (simp add: allocate_task_unallocated)
  next
    case False
    then show ?thesis by (simp add: allocate_task_allocated update_conv')
  qed
  have up: "r = Inr True \<and> alloc_status (allocation t) = ''allocated'' \<and>
            (if terminal status
             then map_of (active_tasks s') tid = None \<and>
                  (\<exists>t'. task_history s' = task_history s @ [t'] \<and>
                        allocation t' = allocation t \<and> task_status t' = status)
             else task_history s' = task_history s \<and>
                  (\<exists>t'. map_of (active_tasks s') tid = Some t' \<and>
                        allocation t' = allocation t \<and> task_status t' = status)) \<and>
            (\<forall>k. k \<noteq> tid \<longrightarrow> map_of (active_tasks s') k = map_of (active_tasks s) k)"
    if act: "map_of (active_tasks s) tid = Some t"
      and res: "update_task_status s tid status prog res now = (s', r)" for t s' r
  proof -
    have wf: "wf_state s" unfolding assms by (rule wf_reachable)
    have ok: "task_ok (registered_agents s) (tid, t)" by (rule active_task_ok [OF wf act])
    then have sub: "set (allocated_agents (allocation t)) \<subseteq> fst ` set (registered_agents s)"
      and st: "alloc_status (allocation t) = ''allocated''"
      by (auto simp: task_ok_def list_all_iff)
    show ?thesis
    proof (cases "terminal status")
      case True
      show ?thesis
        using res st True by (auto simp: update_terminal [OF act True sub] delete_conv')
    next
      case False
      show ?thesis
        using res st False by (auto simp: update_progress [OF act False] update_conv')
    qed
  qed
  show ?thesis using reg al up by blast
qed

theorem allocation_record_frozen_witness:
  "map_of (active_tasks (run initial one_busy)) ''t0''
     = Some (new_task (task_for ''t0'' [''nlp''])
              (new_allocation ''t0'' ''single'' [''a1''] 5 1) 1) \<and>
   snd (update_task_status (run initial one_busy) ''t0'' ''completed'' (Some 100) None 2)
     = Inr True \<and>
   map allocation (task_history
       (fst (update_task_status (run initial one_busy) ''t0'' ''completed'' (Some 100) None 2)))
     = [new_allocation ''t0'' ''single'' [''a1''] 5 1] \<and>
   map task_status (task_history
       (fst (update_task_status (run initial one_busy) ''t0'' ''completed'' (Some 100) None 2)))
     = [''completed'']"
proof -
  let ?s = "run initial one_busy"
  let ?u = "update_task_status ?s ''t0'' ''completed'' (Some 100) None 2"
  have a: "map_of (active_tasks ?s) ''t0''
     = Some (new_task (task_for ''t0'' [''nlp'']) (new_allocation ''t0'' ''single'' [''a1''] 5 1) 1)"
    by code_simp
  have e: "?u = (fst ?u, snd ?u)" by simp
  have h: "task_history ?s = []" by code_simp
  have t: "terminal ''completed''" by (simp add: terminal_def)
  note frozen = allocation_record_frozen [OF refl, where cs = one_busy and tid = "''t0''"
        and status = "''completed''" and prog = "Some 100" and res = None and now = 2]
  note upd = frozen [THEN conjunct2, THEN conjunct2, THEN conjunct2, THEN conjunct2,
        rule_format, OF conjI, OF a e]
  have "snd ?u = Inr True \<and>
        (\<exists>t'. task_history (fst ?u) = task_history ?s @ [t'] \<and>
              allocation t' = new_allocation ''t0'' ''single'' [''a1''] 5 1 \<and>
              task_status t' = ''completed'')"
    using upd t by (simp add: new_task_def)
  then show ?thesis using a h by auto
qed

end
